theory Spec2Isabelle
  imports Complex_Main "HOL-Library.AList"
begin

section \<open>Python values used by \<open>bin/sam_to_confidence.py\<close>\<close>

text \<open>
  The script reads a per-position depth table and a BAM alignment file and writes one
  line of statistics per reference. Its functions are embedded one by one, under their
  own names. Python's unbounded integers are \<open>int\<close>; a Python \<open>float\<close> is a \<open>real\<close>
  (true division, squaring and the square root are exact in the model, so the model
  agrees with the interpreter wherever the results are representable, and comparisons and
  the two-digit rendering of a given value are the interpreter's own); a \<open>str\<close> is a
  \<open>string\<close> of bytes, so only ASCII white space and ASCII digits are recognised.
  Every exception the script can raise is a value of \<open>py_error\<close>. The overflow of a
  float, what the script prints on standard output, and the index that \<open>main\<close> has built
  for the alignment file are not modelled.
\<close>

datatype py_error =
    IndexError
  | ValueError
  | TypeError
  | KeyError string
  | ZeroDivisionError

text \<open>
  A \<open>dict\<close> keeps its keys in insertion order, and assigning to a key that is present
  keeps the key's place: that is \<open>AList.update\<close> on an association list.
\<close>

type_synonym ('k, 'v) dict = "('k \<times> 'v) list"

definition contains :: "('k, 'v) dict \<Rightarrow> 'k \<Rightarrow> bool" where
  \<comment> \<open>\<open>k in d\<close>\<close>
  "contains d k = (map_of d k \<noteq> None)"

definition setitem :: "('k, 'v) dict \<Rightarrow> 'k \<Rightarrow> 'v \<Rightarrow> ('k, 'v) dict" where
  \<comment> \<open>\<open>d[k] = v\<close>\<close>
  "setitem d k v = AList.update k v d"

definition getitem :: "(string, 'v) dict \<Rightarrow> string \<Rightarrow> py_error + 'v" where
  \<comment> \<open>\<open>d[k]\<close>, which raises \<open>KeyError(k)\<close> on a missing key\<close>
  "getitem d k = (case map_of d k of None \<Rightarrow> Inl (KeyError k) | Some v \<Rightarrow> Inr v)"

definition get_default :: "('k, 'v) dict \<Rightarrow> 'k \<Rightarrow> 'v \<Rightarrow> 'v" where
  \<comment> \<open>\<open>d.get(k, dflt)\<close>\<close>
  "get_default d k dflt = (case map_of d k of None \<Rightarrow> dflt | Some v \<Rightarrow> v)"

definition keys :: "('k, 'v) dict \<Rightarrow> 'k list" where
  "keys d = map fst d"

definition values_of :: "('k, 'v) dict \<Rightarrow> 'v list" where
  \<comment> \<open>\<open>d.values()\<close>\<close>
  "values_of d = map snd d"

definition py_truediv :: "int \<Rightarrow> int \<Rightarrow> py_error + real" where
  \<comment> \<open>\<open>a / b\<close> on two ints\<close>
  "py_truediv a b = (if b = 0 then Inl ZeroDivisionError else Inr (real_of_int a / real_of_int b))"

subsection \<open>Strings: \<open>strip\<close>, \<open>split\<close>, \<open>int\<close>, \<open>str\<close>\<close>

definition is_space :: "char \<Rightarrow> bool" where
  \<comment> \<open>\<open>str.isspace\<close> on ASCII: TAB, LF, VT, FF, CR, FS, GS, RS, US and the blank\<close>
  "is_space c = (let n = (of_char c :: nat) in (9 \<le> n \<and> n \<le> 13) \<or> (28 \<le> n \<and> n \<le> 32))"

definition is_digit :: "char \<Rightarrow> bool" where
  "is_digit c = (let n = (of_char c :: nat) in 48 \<le> n \<and> n \<le> 57)"

definition digit_value :: "char \<Rightarrow> int" where
  "digit_value c = int (of_char c) - 48"

definition strip :: "string \<Rightarrow> string" where
  \<comment> \<open>\<open>s.strip()\<close>\<close>
  "strip s = rev (dropWhile is_space (rev (dropWhile is_space s)))"

fun split_aux :: "string \<Rightarrow> string \<Rightarrow> string list" where
  \<comment> \<open>the first argument is the current field, reversed\<close>
  "split_aux cur [] = (if cur = [] then [] else [rev cur])"
| "split_aux cur (c # cs) =
     (if is_space c then (if cur = [] then split_aux [] cs else rev cur # split_aux [] cs)
      else split_aux (c # cur) cs)"

definition split :: "string \<Rightarrow> string list" where
  \<comment> \<open>\<open>s.split()\<close>: the maximal runs of non-space characters\<close>
  "split s = split_aux [] s"

fun digits_value :: "int \<Rightarrow> bool \<Rightarrow> string \<Rightarrow> int option" where
  \<comment> \<open>decimal digits, single underscores allowed between two digits; the flag says
      that the previous character was a digit\<close>
  "digits_value acc prev [] = (if prev then Some acc else None)"
| "digits_value acc prev (c # cs) =
     (if is_digit c then digits_value (10 * acc + digit_value c) True cs
      else if c = CHR ''_'' \<and> prev then digits_value acc False cs
      else None)"

definition py_int :: "string \<Rightarrow> int option" where
  \<comment> \<open>\<open>int(s)\<close> on a field without white space; \<open>None\<close> is the \<open>ValueError\<close>.
      The interpreter's cap on the number of digits is not modelled.\<close>
  "py_int s =
     (case s of
        [] \<Rightarrow> None
      | c # cs \<Rightarrow>
          if c = CHR ''-'' then map_option uminus (digits_value 0 False cs)
          else if c = CHR ''+'' then digits_value 0 False cs
          else digits_value 0 False s)"

definition digit_char :: "nat \<Rightarrow> char" where
  "digit_char n = ''0123456789'' ! n"

fun nat_digits :: "nat \<Rightarrow> string" where
  "nat_digits n = (if n < 10 then [digit_char n] else nat_digits (n div 10) @ [digit_char (n mod 10)])"

declare nat_digits.simps [simp del]

definition str_int :: "int \<Rightarrow> string" where
  \<comment> \<open>\<open>str(i)\<close>, as an f-string renders an int\<close>
  "str_int i = (if i < 0 then CHR ''-'' # nat_digits (nat (- i)) else nat_digits (nat i))"

fun join :: "string \<Rightarrow> string list \<Rightarrow> string" where
  \<comment> \<open>\<open>sep.join(xs)\<close>\<close>
  "join sep [] = []"
| "join sep [x] = x"
| "join sep (x # y # ys) = x @ sep @ join sep (y # ys)"

subsection \<open>The numeric formatting policy: \<open>fm\<close>\<close>

definition round_half_even :: "real \<Rightarrow> int" where
  "round_half_even y =
     (let f = \<lfloor>y\<rfloor>; d = y - of_int f
      in if d < 1 / 2 then f else if 1 / 2 < d then f + 1 else if even f then f else f + 1)"

definition format_2f :: "real \<Rightarrow> string" where
  \<comment> \<open>\<open>f"{x:.2f}"\<close>: the value rounded to hundredths, ties to even, with the sign of \<open>x\<close>\<close>
  "format_2f x =
     (let q = nat (round_half_even (\<bar>x\<bar> * 100))
      in (if x < 0 then ''-'' else '''') @ nat_digits (q div 100) @ ''.'' @
         [digit_char (q div 10 mod 10), digit_char (q mod 10)])"

definition fm :: "real \<Rightarrow> string" where
  "fm x = (if x = 0 then ''0'' else if x > 0 \<and> x < 1 / 100 then ''<0.01'' else format_2f x)"

section \<open>The depth loader: \<open>load_depth_file\<close>\<close>

text \<open>
  The file is the list of its lines. Each line is stripped and split at white space;
  the tuple \<open>cols[0], int(cols[1]), int(cols[2])\<close> is evaluated from left to right, so
  a short line raises \<open>IndexError\<close> and a field that \<open>int\<close> rejects raises
  \<open>ValueError\<close>, whichever comes first. Columns after the third are never read.
\<close>

definition parse_line :: "string \<Rightarrow> py_error + (string \<times> int \<times> int)" where
  "parse_line line =
     (let cols = split (strip line)
      in if length cols < 1 then Inl IndexError
         else if length cols < 2 then Inl IndexError
         else (case py_int (cols ! 1) of
                 None \<Rightarrow> Inl ValueError
               | Some pos \<Rightarrow>
                   if length cols < 3 then Inl IndexError
                   else (case py_int (cols ! 2) of
                           None \<Rightarrow> Inl ValueError
                         | Some dp \<Rightarrow> Inr (cols ! 0, pos, dp))))"

type_synonym depth_table = "(string, (int, int) dict) dict"

definition depth_step ::
  "depth_table \<times> (string, int) dict \<Rightarrow> string \<Rightarrow> py_error + (depth_table \<times> (string, int) dict)" where
  \<comment> \<open>the body of the loop over the lines\<close>
  "depth_step st line =
     (case parse_line line of
        Inl e \<Rightarrow> Inl e
      | Inr (ref, pos, dp) \<Rightarrow>
          let (depth, total_positions) =
                (if \<not> contains (fst st) ref
                 then (setitem (fst st) ref [], setitem (snd st) ref 0)
                 else st)
          in (case getitem depth ref of
                Inl e \<Rightarrow> Inl e
              | Inr inner \<Rightarrow>
                  let depth' = setitem depth ref (setitem inner pos dp)
                  in (case getitem total_positions ref of
                        Inl e \<Rightarrow> Inl e
                      | Inr n \<Rightarrow> Inr (depth', setitem total_positions ref (n + 1)))))"

fun load_loop ::
  "depth_table \<times> (string, int) dict \<Rightarrow> string list \<Rightarrow> py_error + (depth_table \<times> (string, int) dict)" where
  "load_loop st [] = Inr st"
| "load_loop st (line # rest) =
     (case depth_step st line of Inl e \<Rightarrow> Inl e | Inr st' \<Rightarrow> load_loop st' rest)"

definition load_depth_file :: "string list \<Rightarrow> py_error + (depth_table \<times> (string, int) dict)" where
  "load_depth_file file_lines = load_loop ([], []) file_lines"

section \<open>The alignment aggregator: \<open>process_bam_file\<close>\<close>

text \<open>
  A record of the alignment file is what the script reads of it: the unmapped flag, the
  reference name, the 0-based start and the exclusive end; the end is \<open>None\<close> for a
  record without an alignment, and \<open>range(start, None)\<close> then raises \<open>TypeError\<close>.
  The header is the list of the reference names with their lengths.
\<close>

record read =
  is_unmapped :: bool
  reference_name :: string
  reference_start :: int
  reference_end :: "int option"

record bam_file =
  reads :: "read list"
  header :: "(string \<times> nat) list"

record agg =
  coverage :: "(string, int) dict"
  count :: "(string, int) dict"
  sumsq :: "(string, int) dict"
  ireads :: "(string, int) dict"
  countreads :: "(string, int) dict"
  total_reads_aligned :: int

definition agg_init :: agg where
  "agg_init = \<lparr>coverage = [], count = [], sumsq = [], ireads = [], countreads = [],
                total_reads_aligned = 0\<rparr>"

definition pos_step :: "depth_table \<Rightarrow> string \<Rightarrow> int \<Rightarrow> agg \<Rightarrow> agg" where
  \<comment> \<open>the body of \<open>for pos in range(start, end)\<close>\<close>
  "pos_step depth ref_name pos st =
     (let st1 = st\<lparr>coverage := setitem (coverage st) ref_name (get_default (coverage st) ref_name 0 + 1),
                    count := setitem (count st) ref_name (get_default (count st) ref_name 0 + 1)\<rparr>
      in (case map_of depth ref_name of
            None \<Rightarrow> st1
          | Some inner \<Rightarrow>
              (case map_of inner pos of
                 None \<Rightarrow> st1
               | Some dp \<Rightarrow>
                   st1\<lparr>sumsq := setitem (sumsq st1) ref_name (get_default (sumsq st1) ref_name 0 + dp ^ 2)\<rparr>)))"

definition read_step :: "depth_table \<Rightarrow> agg \<Rightarrow> read \<Rightarrow> py_error + agg" where
  \<comment> \<open>the body of \<open>for read in f.fetch()\<close>\<close>
  "read_step depth st rd =
     (if is_unmapped rd then Inr st
      else
        let ref_name = reference_name rd;
            st1 = (if \<not> contains (coverage st) ref_name
                   then st\<lparr>coverage := setitem (coverage st) ref_name 0,
                           count := setitem (count st) ref_name 0,
                           ireads := setitem (ireads st) ref_name 0,
                           countreads := setitem (countreads st) ref_name 0\<rparr>
                   else st)
        in (case getitem (ireads st1) ref_name of
              Inl e \<Rightarrow> Inl e
            | Inr n \<Rightarrow>
                let st2 = st1\<lparr>ireads := setitem (ireads st1) ref_name (n + 1),
                               total_reads_aligned := total_reads_aligned st1 + 1\<rparr>
                in (case reference_end rd of
                      None \<Rightarrow> Inl TypeError
                    | Some e \<Rightarrow>
                        Inr (fold (pos_step depth ref_name) (upto (reference_start rd) (e - 1)) st2))))"

fun read_loop :: "depth_table \<Rightarrow> agg \<Rightarrow> read list \<Rightarrow> py_error + agg" where
  "read_loop depth st [] = Inr st"
| "read_loop depth st (rd # rest) =
     (case read_step depth st rd of Inl e \<Rightarrow> Inl e | Inr st' \<Rightarrow> read_loop depth st' rest)"

definition ilen_of :: "(string \<times> nat) list \<Rightarrow> (string, nat) dict" where
  \<comment> \<open>\<open>ilen[ref] = f.lengths[f.references.index(ref)]\<close> for every name of the header:
      the length of the first entry with that name\<close>
  "ilen_of hdr =
     fold (\<lambda>ref ilen. case map_of hdr ref of None \<Rightarrow> ilen | Some l \<Rightarrow> setitem ilen ref l)
          (map fst hdr) []"

definition process_bam_file ::
  "bam_file \<Rightarrow> depth_table \<Rightarrow> (string, int) dict \<Rightarrow> py_error + (agg \<times> (string, nat) dict)" where
  "process_bam_file f depth total_positions =
     (case read_loop depth agg_init (reads f) of
        Inl e \<Rightarrow> Inl e
      | Inr st \<Rightarrow> Inr (st, ilen_of (header f)))"

section \<open>The statistics reporter: \<open>output_statistics\<close>\<close>

record row =
  accession :: string
  mean_depth :: string
  average_coverage :: string
  ref_size :: string
  total_reads :: string
  pct_reads_aligned :: string
  stdev_field :: string
  abundance_aligned :: string
  x_cov :: string

definition outstring :: "row \<Rightarrow> string" where
  \<comment> \<open>the f-string: the nine fields separated by TAB\<close>
  "outstring r =
     join [CHR 0x09]
       [accession r, mean_depth r, average_coverage r, ref_size r, total_reads r,
        pct_reads_aligned r, stdev_field r, abundance_aligned r, x_cov r]"

definition thresholds :: "int list" where
  "thresholds = [1, 10, 50, 100, 300]"

definition newThresholds :: "int list \<Rightarrow> int \<Rightarrow> nat" where
  \<comment> \<open>\<open>sum(1 for v in depth[ref].values() if v > t)\<close>\<close>
  "newThresholds vals t = length (filter (\<lambda>v. v > t) vals)"

definition xCov :: "int list \<Rightarrow> nat \<Rightarrow> real list" where
  \<comment> \<open>\<open>[100 * newThresholds[t] / ilen[ref] for t in [1, 10, 50, 100, 300]]\<close>\<close>
  "xCov vals len = map (\<lambda>t. real (100 * newThresholds vals t) / real len) thresholds"

definition stats_row ::
  "depth_table \<Rightarrow> (string, int) dict \<Rightarrow> agg \<Rightarrow> (string, nat) dict \<Rightarrow> string \<Rightarrow> py_error + row option" where
  \<comment> \<open>the body of \<open>for ref in ilen\<close>: \<open>Inr None\<close> when no line is written for \<open>ref\<close>\<close>
  "stats_row depth total_positions st ilen ref =
     (case map_of (coverage st) ref of
        None \<Rightarrow> Inr None
      | Some cov \<Rightarrow>
     (case map_of ilen ref of
        None \<Rightarrow> Inr None
      | Some len \<Rightarrow>
     (case py_truediv cov (int len) of
        Inl e \<Rightarrow> Inl e
      | Inr avg_coverage \<Rightarrow>
     (case map_of depth ref of
        None \<Rightarrow> Inr None
      | Some inner \<Rightarrow>
          let total_depth = sum_list (values_of inner)
          in
     (case getitem total_positions ref of
        Inl e \<Rightarrow> Inl e
      | Inr tp \<Rightarrow>
     (case py_truediv total_depth tp of
        Inl e \<Rightarrow> Inl e
      | Inr avgDepth \<Rightarrow>
     (case getitem (sumsq st) ref of
        Inl e \<Rightarrow> Inl e
      | Inr ss \<Rightarrow>
     (case getitem (count st) ref of
        Inl e \<Rightarrow> Inl e
      | Inr cnt \<Rightarrow>
     (case py_truediv ss cnt of
        Inl e \<Rightarrow> Inl e
      | Inr msq \<Rightarrow>
     (case py_truediv total_depth cnt of
        Inl e \<Rightarrow> Inl e
      | Inr m \<Rightarrow>
          let stdev = sqrt \<bar>msq - m ^ 2\<bar>
          in
     (case getitem (ireads st) ref of
        Inl e \<Rightarrow> Inl e
      | Inr ir \<Rightarrow>
     (case py_truediv ir (total_reads_aligned st) of
        Inl e \<Rightarrow> Inl e
      | Inr abu_total_aligned \<Rightarrow>
          Inr (Some \<lparr>accession = ref,
                     mean_depth = fm avgDepth,
                     average_coverage = fm avg_coverage,
                     ref_size = str_int (int len),
                     total_reads = str_int ir,
                     pct_reads_aligned = fm (100 * abu_total_aligned),
                     stdev_field = fm stdev,
                     abundance_aligned = fm abu_total_aligned,
                     x_cov = join '':'' (map fm (xCov (values_of inner) len))\<rparr>)))))))))))))"

fun report_loop ::
  "depth_table \<Rightarrow> (string, int) dict \<Rightarrow> agg \<Rightarrow> (string, nat) dict \<Rightarrow> string list
     \<Rightarrow> string list \<times> py_error option" where
  \<comment> \<open>the lines written so far, and the exception that ended the loop, if any\<close>
  "report_loop depth total_positions st ilen [] = ([], None)"
| "report_loop depth total_positions st ilen (ref # rest) =
     (case stats_row depth total_positions st ilen ref of
        Inl e \<Rightarrow> ([], Some e)
      | Inr None \<Rightarrow> report_loop depth total_positions st ilen rest
      | Inr (Some r) \<Rightarrow>
          (case report_loop depth total_positions st ilen rest of
             (ls, res) \<Rightarrow> ((outstring r @ [CHR 0x0A]) # ls, res)))"

definition output_statistics ::
  "depth_table \<Rightarrow> (string, int) dict \<Rightarrow> agg \<Rightarrow> (string, nat) dict \<Rightarrow> string list \<times> py_error option" where
  "output_statistics depth total_positions st ilen =
     report_loop depth total_positions st ilen (keys ilen)"

definition main :: "string list \<Rightarrow> bam_file \<Rightarrow> string list \<times> py_error option" where
  \<comment> \<open>the depth file's lines and the alignment file in, the output file's lines out\<close>
  "main depth_lines f =
     (case load_depth_file depth_lines of
        Inl e \<Rightarrow> ([], Some e)
      | Inr (depth, total_positions) \<Rightarrow>
          (case process_bam_file f depth total_positions of
             Inl e \<Rightarrow> ([], Some e)
           | Inr (st, ilen) \<Rightarrow> output_statistics depth total_positions st ilen))"

section \<open>Notions used to state the properties\<close>

fun sum_positions :: "(string, int) dict \<Rightarrow> string list \<Rightarrow> py_error + int" where
  \<comment> \<open>\<open>sum(total_positions[ref] for ref in refs)\<close>\<close>
  "sum_positions tp [] = Inr 0"
| "sum_positions tp (ref # refs) =
     (case getitem tp ref of
        Inl e \<Rightarrow> Inl e
      | Inr v \<Rightarrow> (case sum_positions tp refs of Inl e \<Rightarrow> Inl e | Inr s \<Rightarrow> Inr (v + s)))"

definition decimal_value :: "string \<Rightarrow> nat" where
  \<comment> \<open>the number that a string of decimal digits denotes\<close>
  "decimal_value s = foldl (\<lambda>a c. 10 * a + nat (digit_value c)) 0 s"

definition read_bases :: "string \<Rightarrow> read \<Rightarrow> int" where
  \<comment> \<open>the number of positions of \<open>range(start, end)\<close>, for a record mapped to \<open>ref\<close>\<close>
  "read_bases ref rd =
     (if \<not> is_unmapped rd \<and> reference_name rd = ref
      then (case reference_end rd of
              None \<Rightarrow> 0
            | Some e \<Rightarrow> int (length (upto (reference_start rd) (e - 1))))
      else 0)"

definition bases :: "string \<Rightarrow> read list \<Rightarrow> int" where
  "bases ref rds = sum_list (map (read_bases ref) rds)"

definition well_formed_line :: "string \<Rightarrow> bool" where
  \<comment> \<open>the lines on which \<open>parse_line\<close> returns: at least three columns, of which the
      second and the third are accepted by \<open>int\<close>\<close>
  "well_formed_line line =
     (let cols = split (strip line)
      in 3 \<le> length cols \<and> py_int (cols ! 1) \<noteq> None \<and> py_int (cols ! 2) \<noteq> None)"

definition load_inv :: "depth_table \<times> (string, int) dict \<Rightarrow> int \<Rightarrow> bool" where
  \<comment> \<open>what holds of the two dicts of the loader after \<open>n\<close> lines\<close>
  "load_inv st n \<longleftrightarrow>
     keys (fst st) = keys (snd st) \<and>
     distinct (keys (snd st)) \<and>
     sum_list (values_of (snd st)) = n \<and>
     (\<forall>r v. map_of (snd st) r = Some v \<longrightarrow> 1 \<le> v)"

definition agg_inv :: "agg \<Rightarrow> bool" where
  \<comment> \<open>what holds of the accumulators of the aggregator between two records\<close>
  "agg_inv st \<longleftrightarrow>
     coverage st = count st \<and>
     keys (ireads st) = keys (coverage st) \<and>
     distinct (keys (ireads st)) \<and>
     sum_list (values_of (ireads st)) = total_reads_aligned st \<and>
     (\<forall>r v. map_of (ireads st) r = Some v \<longrightarrow> 1 \<le> v) \<and>
     (\<forall>r v. map_of (count st) r = Some v \<longrightarrow> 0 \<le> v) \<and>
     (\<forall>r. contains (sumsq st) r \<longrightarrow> (\<exists>v. map_of (count st) r = Some v \<and> 1 \<le> v))"


subsection \<open>Example inputs\<close>

definition chr1_depth_lines :: "string list" where
  \<comment> \<open>a depth file: positions 1 to 5 of \<open>chr1\<close>, each at depth 20\<close>
  "chr1_depth_lines =
     [''chr1 1 20'' @ [CHR 0x0A], ''chr1 2 20'' @ [CHR 0x0A], ''chr1 3 20'' @ [CHR 0x0A],
      ''chr1 4 20'' @ [CHR 0x0A], ''chr1 5 20'' @ [CHR 0x0A]]"

definition chr1_bam :: "nat \<Rightarrow> bam_file" where
  \<comment> \<open>one mapped record that covers the positions 1 to 5 of \<open>chr1\<close>, of length \<open>L\<close>\<close>
  "chr1_bam L =
     \<lparr>reads = [\<lparr>is_unmapped = False, reference_name = ''chr1'', reference_start = 1,
                 reference_end = Some 6\<rparr>],
      header = [(''chr1'', L)]\<rparr>"

definition two_ref_bam :: bam_file where
  "two_ref_bam =
     \<lparr>reads = [\<lparr>is_unmapped = False, reference_name = ''chr1'', reference_start = 0,
                 reference_end = Some 3\<rparr>,
               \<lparr>is_unmapped = True, reference_name = ''chr2'', reference_start = 4,
                 reference_end = None\<rparr>,
               \<lparr>is_unmapped = False, reference_name = ''chr2'', reference_start = 5,
                 reference_end = Some 7\<rparr>,
               \<lparr>is_unmapped = False, reference_name = ''chr1'', reference_start = 2,
                 reference_end = Some 4\<rparr>],
      header = [(''chr1'', 10), (''chr2'', 8)]\<rparr>"

definition chr1_bam_shifted :: bam_file where
  \<comment> \<open>one mapped record from 0 to 5 exclusive\<close>
  "chr1_bam_shifted =
     \<lparr>reads = [\<lparr>is_unmapped = False, reference_name = ''chr1'', reference_start = 0,
                 reference_end = Some 5\<rparr>],
      header = [(''chr1'', 5)]\<rparr>"



definition mixed_bam :: bam_file where
  "mixed_bam =
     \<lparr>reads = [\<lparr>is_unmapped = False, reference_name = ''chr1'', reference_start = 1,
                 reference_end = Some 6\<rparr>,
               \<lparr>is_unmapped = False, reference_name = ''chr2'', reference_start = 0,
                 reference_end = Some 3\<rparr>],
      header = [(''chr1'', 5), (''chr2'', 8)]\<rparr>"

section \<open>Properties of the formatting policy\<close>

lemma is_digit_digit_char: "n < 10 \<Longrightarrow> is_digit (digit_char n)"
proof -
  assume "n < 10"
  then have "n \<in> {0, 1, 2, 3, 4, 5, 6, 7, 8, 9}" by auto
  then show ?thesis
    by (auto simp: is_digit_def digit_char_def)
qed

lemma round_half_even_close: "\<bar>real_of_int (round_half_even y) - y\<bar> \<le> 1 / 2"
  unfolding round_half_even_def Let_def
  by (auto simp: abs_le_iff)

lemma digit_value_digit_char: "n < 10 \<Longrightarrow> nat (digit_value (digit_char n)) = n"
proof -
  assume "n < 10"
  then have "n \<in> {0, 1, 2, 3, 4, 5, 6, 7, 8, 9}" by auto
  then show ?thesis
    by (auto simp: digit_value_def digit_char_def)
qed

lemma decimal_value_snoc:
  "decimal_value (s @ [c]) = 10 * decimal_value s + nat (digit_value c)"
  by (simp add: decimal_value_def)

lemma decimal_value_nat_digits: "decimal_value (nat_digits n) = n"
proof (induction n rule: nat_digits.induct)
  case (1 n)
  show ?case
  proof (cases "n < 10")
    case True
    then show ?thesis
      by (subst nat_digits.simps) (simp add: decimal_value_def digit_value_digit_char)
  next
    case False
    with 1 have "decimal_value (nat_digits (n div 10)) = n div 10" by simp
    with False show ?thesis
      by (subst nat_digits.simps) (simp add: decimal_value_snoc digit_value_digit_char)
  qed
qed

lemma format_2f_value:
  "\<exists>ip fp. format_2f x = (if x < 0 then ''-'' else '''') @ ip @ ''.'' @ fp \<and> length fp = 2 \<and>
     list_all is_digit fp \<and>
     \<bar>real (decimal_value (ip @ fp)) / 100 - \<bar>x\<bar>\<bar> \<le> 1 / 200"
proof -
  define q where "q = nat (round_half_even (\<bar>x\<bar> * 100))"
  define ip where "ip = nat_digits (q div 100)"
  define fp where "fp = [digit_char (q div 10 mod 10), digit_char (q mod 10)]"
  have f: "format_2f x = (if x < 0 then ''-'' else '''') @ ip @ ''.'' @ fp"
    by (simp add: format_2f_def q_def ip_def fp_def Let_def)
  have "decimal_value (ip @ fp) = 10 * (10 * (q div 100) + q div 10 mod 10) + q mod 10"
    unfolding ip_def fp_def
    using decimal_value_snoc [of "nat_digits (q div 100) @ [digit_char (q div 10 mod 10)]" "digit_char (q mod 10)"]
      decimal_value_snoc [of "nat_digits (q div 100)" "digit_char (q div 10 mod 10)"]
    by (simp add: decimal_value_nat_digits digit_value_digit_char)
  also have "\<dots> = q"
  proof -
    have "q div 100 = q div 10 div 10"
      using div_mult2_eq [of q 10 10] by simp
    then show ?thesis by simp
  qed
  finally have dv: "decimal_value (ip @ fp) = q" .
  have nonneg: "0 \<le> round_half_even (\<bar>x\<bar> * 100)"
    by (auto simp: round_half_even_def Let_def)
  then have "real q = real_of_int (round_half_even (\<bar>x\<bar> * 100))" by (simp add: q_def)
  with round_half_even_close [of "\<bar>x\<bar> * 100"]
  have "\<bar>real q - \<bar>x\<bar> * 100\<bar> \<le> 1 / 2" by simp
  then have "\<bar>real q / 100 - \<bar>x\<bar>\<bar> \<le> 1 / 200" by (simp add: abs_le_iff field_simps)
  moreover have "length fp = 2" "list_all is_digit fp"
    by (simp_all add: fp_def is_digit_digit_char)
  ultimately show ?thesis using f dv by auto
qed

text \<open>
  Claim C5. \<open>fm\<close> returns the literal \<open>0\<close> for an argument that is exactly zero,
  \<open><0.01\<close> for every strictly positive argument below 0.01, and in every other case the
  argument with two decimal digits: a sign for a negative argument, the digits of the
  integer part, a point and two digits, denoting a number within half a hundredth of
  the absolute value of the argument. In particular \<open>fm(0) = "0"\<close>,
  \<open>fm(0.005) = "<0.01"\<close> and \<open>fm(0.01) = "0.01"\<close>.
\<close>

theorem fm_policy:
  "fm 0 = ''0'' \<and>
   (0 < x \<and> x < 1 / 100 \<longrightarrow> fm x = ''<0.01'') \<and>
   (x \<noteq> 0 \<and> \<not> (0 < x \<and> x < 1 / 100) \<longrightarrow>
      fm x = format_2f x \<and>
      (\<exists>ip fp. fm x = (if x < 0 then ''-'' else '''') @ ip @ ''.'' @ fp \<and> length fp = 2 \<and>
         list_all is_digit fp \<and>
         \<bar>real (decimal_value (ip @ fp)) / 100 - \<bar>x\<bar>\<bar> \<le> 1 / 200)) \<and>
   fm (5 / 1000) = ''<0.01'' \<and>
   fm (1 / 100) = ''0.01''"
proof -
  have a: "fm 0 = ''0''" by (simp add: fm_def)
  have b: "0 < x \<and> x < 1 / 100 \<longrightarrow> fm x = ''<0.01''" by (simp add: fm_def)
  have c: "x \<noteq> 0 \<and> \<not> (0 < x \<and> x < 1 / 100) \<longrightarrow> fm x = format_2f x"
    by (auto simp: fm_def)
  have d: "fm (5 / 1000) = ''<0.01''" by (simp add: fm_def)
  have e: "fm (1 / 100) = ''0.01''"
    by (simp add: fm_def format_2f_def round_half_even_def Let_def nat_digits.simps digit_char_def)
  from a b c d e format_2f_value [of x] show ?thesis by metis
qed

theorem fm_policy_witness:
  "fm (1 / 200) = ''<0.01'' \<and> fm (25 / 2) = format_2f (25 / 2) \<and> format_2f (25 / 2) = ''12.50''"
proof -
  have "format_2f (25 / 2) = ''12.50''"
    by (simp add: format_2f_def round_half_even_def Let_def nat_digits.simps digit_char_def)
  then show ?thesis
    using fm_policy [of "1 / 200"] fm_policy [of "25 / 2"] by simp
qed

section \<open>Properties of the threshold coverage\<close>

lemma newThresholds_antimono: "t \<le> t' \<Longrightarrow> newThresholds vals t' \<le> newThresholds vals t"
  by (induction vals) (auto simp: newThresholds_def)

lemma cov_antimono:
  "t \<le> t' \<Longrightarrow>
   real (100 * newThresholds vals t') / real len \<le> real (100 * newThresholds vals t) / real len"
  by (intro divide_right_mono) (simp_all add: newThresholds_antimono)

text \<open>
  Claim C6. For the recorded depths of any reference and any reference length, the
  threshold coverage percentages computed for the cutoffs 1, 10, 50, 100, 300 never
  increase from one cutoff to a later one: in the list \<open>xCov\<close>, every later entry is at
  most every earlier one.
\<close>

theorem xCov_non_increasing: "sorted_wrt (\<lambda>a b. b \<le> a) (xCov vals len)"
  unfolding xCov_def thresholds_def
  by (simp add: cov_antimono del: of_nat_mult)

theorem xCov_non_increasing_witness:
  "sorted_wrt (\<lambda>a b. b \<le> a) (xCov [20, 5, 120, 400] 10) \<and>
   xCov [20, 5, 120, 400] 10 = [40, 30, 20, 20, 10]"
  using xCov_non_increasing [of "[20, 5, 120, 400]" 10]
  by (simp add: xCov_def thresholds_def newThresholds_def)

section \<open>Facts about dicts\<close>

lemma contains_setitem: "contains (setitem d k v) k' = (k' = k \<or> contains d k')"
  by (simp add: contains_def setitem_def update_conv')

lemma map_of_setitem: "map_of (setitem d k v) = (map_of d)(k \<mapsto> v)"
  by (simp add: setitem_def update_conv')

lemma sum_list_setitem:
  "sum_list (values_of (setitem d k v)) = sum_list (values_of d) - get_default d k 0 + (v::int)"
  by (induction d) (auto simp: values_of_def setitem_def get_default_def)

lemma contains_keys: "contains d k = (k \<in> set (keys d))"
  by (simp add: contains_def keys_def map_of_eq_None_iff)

lemma keys_setitem:
  "keys (setitem d k v) = (if contains d k then keys d else keys d @ [k])"
  by (simp add: keys_def setitem_def contains_def update_keys map_of_eq_None_iff)

lemma distinct_keys_setitem: "distinct (keys d) \<Longrightarrow> distinct (keys (setitem d k v))"
  by (simp add: keys_def setitem_def distinct_update)

lemma getitem_Inr: "getitem d k = Inr v \<longleftrightarrow> map_of d k = Some v"
  by (simp add: getitem_def split: option.splits)

lemma getitem_Inl: "getitem d k = Inl e \<longleftrightarrow> map_of d k = None \<and> e = KeyError k"
  by (auto simp: getitem_def split: option.splits)

lemma get_default_Some: "map_of d k = Some v \<Longrightarrow> get_default d k dflt = v"
  by (simp add: get_default_def)

lemma get_default_None: "map_of d k = None \<Longrightarrow> get_default d k dflt = dflt"
  by (simp add: get_default_def)

section \<open>Properties of the aggregator\<close>

lemma agg_inv_init: "agg_inv agg_init"
  by (simp add: agg_inv_def agg_init_def keys_def values_of_def contains_def)

lemma pos_step_fields:
  "ireads (pos_step d r p st) = ireads st"
  "total_reads_aligned (pos_step d r p st) = total_reads_aligned st"
  "coverage (pos_step d r p st) = setitem (coverage st) r (get_default (coverage st) r 0 + 1)"
  "count (pos_step d r p st) = setitem (count st) r (get_default (count st) r 0 + 1)"
  by (simp_all add: pos_step_def Let_def split: option.splits)

lemma pos_step_sumsq:
  "sumsq (pos_step d r p st) =
     (case map_of d r of None \<Rightarrow> sumsq st
      | Some inner \<Rightarrow> (case map_of inner p of None \<Rightarrow> sumsq st
          | Some dp \<Rightarrow> setitem (sumsq st) r (get_default (sumsq st) r 0 + dp ^ 2)))"
  by (simp add: pos_step_def Let_def split: option.splits)

lemma pos_step_inv:
  assumes "agg_inv st" "contains (coverage st) r"
  shows "agg_inv (pos_step d r p st) \<and> contains (coverage (pos_step d r p st)) r"
proof -
  from assms obtain c where c: "map_of (count st) r = Some c" "0 \<le> c" "coverage st = count st"
    by (auto simp: agg_inv_def contains_def)
  have gd: "get_default (count st) r 0 = c" using c by (simp add: get_default_Some)
  have cnt: "map_of (count (pos_step d r p st)) = (map_of (count st))(r \<mapsto> c + 1)"
    by (simp add: pos_step_fields map_of_setitem gd)
  have ss: "contains (sumsq (pos_step d r p st)) r' \<Longrightarrow> r' = r \<or> contains (sumsq st) r'" for r'
    by (auto simp: pos_step_sumsq contains_setitem split: option.splits)
  have k: "keys (coverage (pos_step d r p st)) = keys (coverage st)"
    using assms(2) by (simp add: pos_step_fields keys_setitem)
  have "coverage (pos_step d r p st) = count (pos_step d r p st)"
    using c by (simp add: pos_step_fields)
  moreover have "\<forall>r' v. map_of (count (pos_step d r p st)) r' = Some v \<longrightarrow> 0 \<le> v"
    using assms(1) c by (auto simp: cnt agg_inv_def)
  moreover have "\<forall>r'. contains (sumsq (pos_step d r p st)) r' \<longrightarrow>
      (\<exists>v. map_of (count (pos_step d r p st)) r' = Some v \<and> 1 \<le> v)"
  proof (intro allI impI)
    fix r' assume "contains (sumsq (pos_step d r p st)) r'"
    then consider "r' = r" | "r' \<noteq> r" "contains (sumsq st) r'" using ss by blast
    then show "\<exists>v. map_of (count (pos_step d r p st)) r' = Some v \<and> 1 \<le> v"
    proof cases
      case 1 then show ?thesis using c by (simp add: cnt)
    next
      case 2 then show ?thesis using assms(1) by (simp add: cnt agg_inv_def)
    qed
  qed
  ultimately show ?thesis
    using assms k by (auto simp: agg_inv_def pos_step_fields contains_setitem)
qed

lemma fold_pos_step_inv:
  "agg_inv st \<Longrightarrow> contains (coverage st) r \<Longrightarrow>
   agg_inv (fold (pos_step d r) ps st) \<and> contains (coverage (fold (pos_step d r) ps st)) r"
  by (induction ps arbitrary: st) (simp_all add: pos_step_inv)

lemma read_step_inv:
  assumes "agg_inv st" "read_step d st rd = Inr st'"
  shows "agg_inv st'"
proof (cases "is_unmapped rd")
  case True
  with assms show ?thesis by (simp add: read_step_def)
next
  case False
  define r where "r = reference_name rd"
  define st1 where "st1 = (if \<not> contains (coverage st) r
                   then st\<lparr>coverage := setitem (coverage st) r 0,
                           count := setitem (count st) r 0,
                           ireads := setitem (ireads st) r 0,
                           countreads := setitem (countreads st) r 0\<rparr>
                   else st)"
  from assms(2) False obtain n e where
    n: "map_of (ireads st1) r = Some n" and e: "reference_end rd = Some e" and
    st': "st' = fold (pos_step d r) (upto (reference_start rd) (e - 1))
                  (st1\<lparr>ireads := setitem (ireads st1) r (n + 1),
                        total_reads_aligned := total_reads_aligned st1 + 1\<rparr>)"
    by (auto simp: read_step_def Let_def r_def st1_def getitem_Inr split: sum.splits option.splits if_splits)
  have ci: "contains (ireads st) r = contains (coverage st) r"
    using assms(1) by (simp add: contains_keys agg_inv_def)
  have n0: "0 \<le> n"
  proof (cases "contains (coverage st) r")
    case True
    then have "st1 = st" by (simp add: st1_def)
    with n assms(1) show ?thesis by (force simp: agg_inv_def)
  next
    case False
    then show ?thesis using n by (simp add: st1_def map_of_setitem)
  qed
  have gd: "get_default (ireads st1) r 0 = n" using n by (simp add: get_default_Some)
  have sum1: "sum_list (values_of (ireads st1)) = total_reads_aligned st1"
  proof (cases "contains (coverage st) r")
    case True
    then show ?thesis using assms(1) by (simp add: st1_def agg_inv_def)
  next
    case False
    then have "map_of (ireads st) r = None" using ci by (simp add: contains_def)
    then show ?thesis using assms(1) False
      by (simp add: st1_def agg_inv_def sum_list_setitem get_default_None)
  qed
  have inv1: "coverage st1 = count st1" "keys (ireads st1) = keys (coverage st1)"
    "contains (coverage st1) r"
    "\<forall>r v. map_of (count st1) r = Some v \<longrightarrow> 0 \<le> v"
    "\<forall>r'. contains (sumsq st1) r' \<longrightarrow> (\<exists>v. map_of (count st1) r' = Some v \<and> 1 \<le> v)"
    "\<forall>r' v. r' \<noteq> r \<longrightarrow> map_of (ireads st1) r' = Some v \<longrightarrow> 1 \<le> v"
    using assms(1) ci
    by (auto simp: st1_def agg_inv_def keys_setitem contains_setitem map_of_setitem contains_def)
  have d1: "distinct (keys (ireads st1))"
    using assms(1) by (auto simp: st1_def agg_inv_def intro: distinct_keys_setitem)
  define st2 where "st2 = st1\<lparr>ireads := setitem (ireads st1) r (n + 1),
                        total_reads_aligned := total_reads_aligned st1 + 1\<rparr>"
  have "contains (ireads st1) r" using n by (simp add: contains_def)
  then have "agg_inv st2" "contains (coverage st2) r"
    using inv1 sum1 n0 gd d1
    by (auto simp: st2_def agg_inv_def keys_setitem sum_list_setitem map_of_setitem)
  then show ?thesis
    unfolding st' st2_def [symmetric] by (simp add: fold_pos_step_inv)
qed

lemma read_loop_inv:
  "agg_inv st \<Longrightarrow> read_loop d st rds = Inr st' \<Longrightarrow> agg_inv st'"
  by (induction rds arbitrary: st) (auto split: sum.splits dest: read_step_inv)

lemma process_bam_file_inv:
  "process_bam_file f d tp = Inr (st, ilen) \<Longrightarrow> agg_inv st"
  by (auto simp: process_bam_file_def split: sum.splits dest: read_loop_inv [OF agg_inv_init])

lemma read_step_returns:
  assumes "agg_inv st" "\<not> is_unmapped rd \<longrightarrow> reference_end rd \<noteq> None"
  shows "\<exists>st'. read_step d st rd = Inr st'"
proof (cases "is_unmapped rd")
  case True
  then show ?thesis by (simp add: read_step_def)
next
  case False
  with assms(2) obtain e where e: "reference_end rd = Some e" by auto
  have "contains (ireads st) (reference_name rd) = contains (coverage st) (reference_name rd)"
    using assms(1) by (simp add: contains_keys agg_inv_def)
  then show ?thesis
    using False e
    by (auto simp: read_step_def Let_def getitem_def contains_def map_of_setitem split: option.splits)
qed

lemma read_loop_returns:
  "agg_inv st \<Longrightarrow> \<forall>rd\<in>set rds. \<not> is_unmapped rd \<longrightarrow> reference_end rd \<noteq> None \<Longrightarrow>
   \<exists>st'. read_loop d st rds = Inr st'"
proof (induction rds arbitrary: st)
  case Nil
  then show ?case by simp
next
  case (Cons rd rds)
  then obtain st1 where s: "read_step d st rd = Inr st1"
    using read_step_returns [of st rd d] by auto
  then have "agg_inv st1" using Cons.prems(1) read_step_inv by blast
  with Cons s show ?case by simp
qed

lemma process_bam_file_returns:
  assumes "\<forall>rd\<in>set (reads f). \<not> is_unmapped rd \<longrightarrow> reference_end rd \<noteq> None"
  shows "\<exists>st. process_bam_file f d tp = Inr (st, ilen_of (header f))"
  using read_loop_returns [OF agg_inv_init assms, of d]
  by (auto simp: process_bam_file_def)

lemma get_default_setitem:
  "get_default (setitem d k v) k' dflt = (if k' = k then v else get_default d k' dflt)"
  by (simp add: get_default_def map_of_setitem)

lemma fold_pos_step_coverage_value:
  "get_default (coverage (fold (pos_step d r0) ps st)) r 0 =
     get_default (coverage st) r 0 + (if r = r0 then int (length ps) else 0)"
  by (induction ps arbitrary: st) (simp_all add: pos_step_fields get_default_setitem)

lemma read_step_coverage_value:
  assumes "read_step d st rd = Inr st'"
  shows "get_default (coverage st') r 0 = get_default (coverage st) r 0 + read_bases r rd"
proof (cases "is_unmapped rd")
  case True
  with assms show ?thesis by (simp add: read_step_def read_bases_def)
next
  case False
  with assms obtain e st2 where
    e: "reference_end rd = Some e" and
    st': "st' = fold (pos_step d (reference_name rd)) (upto (reference_start rd) (e - 1)) st2" and
    c2: "coverage st2 = (if \<not> contains (coverage st) (reference_name rd)
                         then setitem (coverage st) (reference_name rd) 0 else coverage st)"
    by (auto simp: read_step_def Let_def split: sum.splits option.splits if_splits)
  have "get_default (coverage st2) r 0 = get_default (coverage st) r 0"
    by (auto simp: c2 get_default_setitem) (simp add: get_default_def contains_def)
  then show ?thesis
    using False e by (simp add: st' fold_pos_step_coverage_value read_bases_def)
qed

lemma read_loop_coverage_value:
  "read_loop d st rds = Inr st' \<Longrightarrow>
   get_default (coverage st') r 0 = get_default (coverage st) r 0 + bases r rds"
proof (induction rds arbitrary: st)
  case Nil
  then show ?case by (simp add: bases_def)
next
  case (Cons rd rds)
  from Cons.prems obtain st1 where s: "read_step d st rd = Inr st1" "read_loop d st1 rds = Inr st'"
    by (auto split: sum.splits)
  from Cons.IH [OF s(2)] read_step_coverage_value [OF s(1), of r]
  show ?case by (simp add: bases_def)
qed

lemma process_bam_file_coverage_value:
  "process_bam_file f depth tp = Inr (st, ilen) \<Longrightarrow>
   get_default (coverage st) r 0 = bases r (reads f)"
  by (auto simp: process_bam_file_def split: sum.splits dest!: read_loop_coverage_value [of _ _ _ _ r])
    (simp add: agg_init_def get_default_def)

text \<open>
  Claim C9. When \<open>process_bam_file\<close> returns, the coverage accumulator and the count
  accumulator are the same dict: the same references, in the same order, with the same
  values, so that \<open>coverage[ref] == count[ref]\<close> for every key. The common value is the
  number of bases of the mapped records of the reference: each is counted once in both.
\<close>

theorem coverage_eq_count:
  "process_bam_file f depth total_positions = Inr (st, ilen) \<Longrightarrow>
   coverage st = count st \<and>
   get_default (coverage st) ref 0 = bases ref (reads f) \<and>
   get_default (count st) ref 0 = bases ref (reads f)"
  using process_bam_file_inv [of f depth total_positions st ilen]
    process_bam_file_coverage_value [of f depth total_positions st ilen ref]
  by (simp add: agg_inv_def)

theorem coverage_eq_count_witness:
  "process_bam_file two_ref_bam [(''chr1'', [(2, 7)])] [(''chr1'', 1)] =
     Inr (\<lparr>coverage = [(''chr1'', 5), (''chr2'', 2)], count = [(''chr1'', 5), (''chr2'', 2)],
           sumsq = [(''chr1'', 98)], ireads = [(''chr1'', 2), (''chr2'', 1)],
           countreads = [(''chr1'', 0), (''chr2'', 0)], total_reads_aligned = 3\<rparr>,
          [(''chr1'', 10), (''chr2'', 8)]) \<and>
   bases ''chr1'' (reads two_ref_bam) = 5"
proof -
  have run: "process_bam_file two_ref_bam [(''chr1'', [(2, 7)])] [(''chr1'', 1)] =
     Inr (\<lparr>coverage = [(''chr1'', 5), (''chr2'', 2)], count = [(''chr1'', 5), (''chr2'', 2)],
           sumsq = [(''chr1'', 98)], ireads = [(''chr1'', 2), (''chr2'', 1)],
           countreads = [(''chr1'', 0), (''chr2'', 0)], total_reads_aligned = 3\<rparr>,
          [(''chr1'', 10), (''chr2'', 8)])"
    by code_simp
  from coverage_eq_count [OF run, of "''chr1''"] run show ?thesis
    by (simp add: get_default_def)
qed

text \<open>
  Claim C7. When the pass of \<open>process_bam_file\<close> over the records of an alignment file
  completes, the per-reference read counters \<open>ireads\<close> add up to the global counter
  \<open>total_reads_aligned\<close> that the function returns.
\<close>

theorem ireads_sum_total:
  "process_bam_file f depth total_positions = Inr (st, ilen) \<Longrightarrow>
   sum_list (values_of (ireads st)) = total_reads_aligned st"
  using process_bam_file_inv [of f depth total_positions st ilen]
  by (simp add: agg_inv_def)

theorem ireads_sum_total_witness:
  "\<exists>st ilen. process_bam_file two_ref_bam [] [] = Inr (st, ilen) \<and>
      ireads st = [(''chr1'', 2), (''chr2'', 1)] \<and>
      sum_list (values_of (ireads st)) = total_reads_aligned st \<and>
      total_reads_aligned st = 3"
proof -
  have run: "process_bam_file two_ref_bam [] [] =
     Inr (\<lparr>coverage = [(''chr1'', 5), (''chr2'', 2)], count = [(''chr1'', 5), (''chr2'', 2)],
           sumsq = [], ireads = [(''chr1'', 2), (''chr2'', 1)],
           countreads = [(''chr1'', 0), (''chr2'', 0)], total_reads_aligned = 3\<rparr>,
          [(''chr1'', 10), (''chr2'', 8)])"
    by code_simp
  from ireads_sum_total [OF run] run show ?thesis by simp
qed

section \<open>Properties of the loader\<close>

lemma parse_line_Inr: "(\<exists>r. parse_line l = Inr r) \<longleftrightarrow> well_formed_line l"
  by (auto simp: parse_line_def well_formed_line_def Let_def split: option.splits)

lemma parse_line_Inl: "parse_line l = Inl e \<Longrightarrow> \<not> well_formed_line l \<and> (e = IndexError \<or> e = ValueError)"
  by (auto simp: parse_line_def well_formed_line_def Let_def split: option.splits if_splits)

lemma depth_step_inv:
  assumes "load_inv st n" "parse_line l = Inr (ref, pos, dp)"
  shows "\<exists>st'. depth_step st l = Inr st' \<and> load_inv st' (n + 1)"
proof -
  obtain d tp where st: "st = (d, tp)" by (cases st)
  have ck: "contains d ref = contains tp ref"
    using assms(1) by (simp add: st load_inv_def contains_keys)
  show ?thesis
  proof (cases "contains d ref")
    case True
    then obtain inner v where i: "map_of d ref = Some inner" and v: "map_of tp ref = Some v"
      using ck by (auto simp: contains_def)
    have "depth_step st l = Inr (setitem d ref (setitem inner pos dp), setitem tp ref (v + 1))"
      using True i v assms(2) by (simp add: depth_step_def st getitem_def)
    moreover have "0 \<le> v" using assms(1) v by (force simp: st load_inv_def)
    moreover have "load_inv (setitem d ref (setitem inner pos dp), setitem tp ref (v + 1)) (n + 1)"
      using assms(1) True ck v \<open>0 \<le> v\<close>
      by (auto simp: st load_inv_def keys_setitem sum_list_setitem get_default_Some map_of_setitem)
    ultimately show ?thesis by blast
  next
    case False
    then have tpn: "map_of tp ref = None" using ck by (simp add: contains_def)
    have "depth_step st l = Inr (setitem (setitem d ref []) ref (setitem [] pos dp),
                                 setitem (setitem tp ref 0) ref 1)"
      using False assms(2) by (simp add: depth_step_def st getitem_def map_of_setitem)
    moreover have "load_inv (setitem (setitem d ref []) ref (setitem [] pos dp),
                                 setitem (setitem tp ref 0) ref 1) (n + 1)"
      using assms(1) False ck tpn
      by (auto simp: st load_inv_def keys_setitem sum_list_setitem get_default_Some get_default_None
            map_of_setitem contains_setitem contains_keys)
    ultimately show ?thesis by blast
  qed
qed

lemma depth_step_Inl:
  "load_inv st n \<Longrightarrow> depth_step st l = Inl e \<Longrightarrow>
   \<not> well_formed_line l \<and> (e = IndexError \<or> e = ValueError)"
proof -
  assume inv: "load_inv st n" and e: "depth_step st l = Inl e"
  show ?thesis
  proof (cases "parse_line l")
    case (Inl e')
    then have "e' = e" using e by (simp add: depth_step_def)
    with Inl show ?thesis using parse_line_Inl by blast
  next
    case (Inr r)
    obtain ref pos dp where "r = (ref, pos, dp)" by (cases r)
    with Inr depth_step_inv [OF inv] e show ?thesis by fastforce
  qed
qed

lemma load_loop_inv:
  "load_inv st n \<Longrightarrow> load_loop st ls = Inr st' \<Longrightarrow> load_inv st' (n + int (length ls))"
proof (induction ls arbitrary: st n)
  case Nil
  then show ?case by simp
next
  case (Cons l ls)
  from Cons.prems(2) obtain st1 where s1: "depth_step st l = Inr st1" and r: "load_loop st1 ls = Inr st'"
    by (auto split: sum.splits)
  obtain r0 where "parse_line l = Inr r0"
    using s1 by (cases "parse_line l") (auto simp: depth_step_def)
  moreover obtain ref pos dp where "r0 = (ref, pos, dp)" by (cases r0)
  ultimately have "load_inv st1 (n + 1)"
    using depth_step_inv [OF Cons.prems(1)] s1 by fastforce
  from Cons.IH [OF this r] show ?case by (simp add: add.assoc)
qed

lemma load_loop_ok:
  "load_inv st n \<Longrightarrow> \<forall>l\<in>set ls. well_formed_line l \<Longrightarrow> \<exists>st'. load_loop st ls = Inr st'"
proof (induction ls arbitrary: st n)
  case Nil
  then show ?case by simp
next
  case (Cons l ls)
  then have "well_formed_line l" by simp
  then obtain ref pos dp where "parse_line l = Inr (ref, pos, dp)"
    using parse_line_Inr [of l] by (metis prod_cases3)
  from depth_step_inv [OF Cons.prems(1) this] obtain st1 where
    "depth_step st l = Inr st1" "load_inv st1 (n + 1)" by blast
  with Cons.IH [of st1 "n + 1"] Cons.prems(2) show ?case by simp
qed

lemma load_loop_Inl:
  "load_inv st n \<Longrightarrow> load_loop st ls = Inl e \<Longrightarrow>
   (\<exists>l\<in>set ls. \<not> well_formed_line l) \<and> (e = IndexError \<or> e = ValueError)"
proof (induction ls arbitrary: st n)
  case Nil
  then show ?case by simp
next
  case (Cons l ls)
  show ?case
  proof (cases "depth_step st l")
    case (Inl e')
    then have "e' = e" using Cons.prems(2) by simp
    with Inl depth_step_Inl [OF Cons.prems(1)] show ?thesis by auto
  next
    case (Inr st1)
    obtain r0 where p: "parse_line l = Inr r0"
      using Inr by (cases "parse_line l") (auto simp: depth_step_def)
    obtain ref pos dp where "r0 = (ref, pos, dp)" by (cases r0)
    with p have "load_inv st1 (n + 1)"
      using depth_step_inv [OF Cons.prems(1)] Inr by fastforce
    moreover have "load_loop st1 ls = Inl e" using Cons.prems(2) Inr by simp
    ultimately show ?thesis using Cons.IH by auto
  qed
qed

lemma load_inv_init: "load_inv ([], []) 0"
  by (simp add: load_inv_def keys_def values_of_def)

lemma map_of_keys_values:
  "distinct (keys tp) \<Longrightarrow> map (\<lambda>k. the (map_of tp k)) (keys tp) = values_of tp"
proof (induction tp)
  case Nil
  then show ?case by (simp add: keys_def values_of_def)
next
  case (Cons a tp)
  have "k \<in> set (map fst tp) \<Longrightarrow> k \<noteq> fst a" for k
    using Cons.prems by (force simp: keys_def)
  then have "map (\<lambda>k. the (map_of (a # tp) k)) (map fst tp) = map (\<lambda>k. the (map_of tp k)) (map fst tp)"
    by (intro map_cong) (simp_all split: prod.splits)
  then show ?case using Cons by (simp add: keys_def values_of_def)
qed

lemma sum_positions_sub:
  "set ks \<subseteq> set (keys tp) \<Longrightarrow>
   sum_positions tp ks = Inr (sum_list (map (\<lambda>k. the (map_of tp k)) ks))"
  by (induction ks) (auto simp: getitem_def keys_def map_of_eq_None_iff split: option.splits)

lemma sum_positions_keys:
  "distinct (keys tp) \<Longrightarrow> sum_positions tp (keys tp) = Inr (sum_list (values_of tp))"
  using sum_positions_sub [of "keys tp" tp] by (simp add: map_of_keys_values)

lemma load_loop_Inr_wf:
  "load_loop st ls = Inr st' \<Longrightarrow> \<forall>l\<in>set ls. well_formed_line l"
proof (induction ls arbitrary: st)
  case Nil
  then show ?case by simp
next
  case (Cons l ls)
  from Cons.prems obtain st1 where s1: "depth_step st l = Inr st1" and r: "load_loop st1 ls = Inr st'"
    by (auto split: sum.splits)
  have "\<exists>r0. parse_line l = Inr r0"
    using s1 by (cases "parse_line l") (auto simp: depth_step_def)
  then have "well_formed_line l" using parse_line_Inr [of l] by blast
  with Cons.IH [OF r] show ?case by simp
qed

text \<open>
  Claim C8. For a depth file that \<open>load_depth_file\<close> reads to the end, the per-reference
  position counts, summed over the references of the depth table, give the number of
  lines of the file. The counter of a reference is incremented once per line, so this
  holds for every file, and in particular for a file in which no pair of reference and
  position repeats.
\<close>

theorem total_positions_sum:
  "load_depth_file ls = Inr (depth, total_positions) \<Longrightarrow>
   sum_positions total_positions (keys depth) = Inr (int (length ls))"
proof -
  assume "load_depth_file ls = Inr (depth, total_positions)"
  then have "load_inv (depth, total_positions) (0 + int (length ls))"
    unfolding load_depth_file_def by (rule load_loop_inv [OF load_inv_init])
  then show ?thesis
    by (simp add: load_inv_def sum_positions_keys)
qed

theorem total_positions_sum_witness:
  "\<exists>depth tp. load_depth_file chr1_depth_lines = Inr (depth, tp) \<and>
      tp = [(''chr1'', 5)] \<and>
      sum_positions tp (keys depth) = Inr (int (length chr1_depth_lines)) \<and>
      length chr1_depth_lines = 5"
proof -
  have run: "load_depth_file chr1_depth_lines =
     Inr ([(''chr1'', [(1, 20), (2, 20), (3, 20), (4, 20), (5, 20)])], [(''chr1'', 5)])"
    by code_simp
  have "length chr1_depth_lines = 5" by (simp add: chr1_depth_lines_def)
  with total_positions_sum [OF run] run show ?thesis by simp
qed

text \<open>
  Claim C3, as the code has it. \<open>load_depth_file\<close> returns the two dicts when every line
  has at least three columns of which the second and the third are integers, and raises
  \<open>IndexError\<close> or \<open>ValueError\<close> as soon as one line has fewer than three columns or a
  second or third column that \<open>int\<close> rejects. A line with more than three columns is
  not an error: the columns after the third are ignored.
\<close>

theorem load_depth_file_errors:
  "((\<forall>l\<in>set ls. well_formed_line l) \<longrightarrow> (\<exists>r. load_depth_file ls = Inr r)) \<and>
   ((\<exists>l\<in>set ls. \<not> well_formed_line l) \<longrightarrow>
      load_depth_file ls = Inl IndexError \<or> load_depth_file ls = Inl ValueError)"
proof (intro conjI impI)
  assume "\<forall>l\<in>set ls. well_formed_line l"
  then show "\<exists>r. load_depth_file ls = Inr r"
    unfolding load_depth_file_def using load_loop_ok [OF load_inv_init] by blast
next
  assume bad: "\<exists>l\<in>set ls. \<not> well_formed_line l"
  show "load_depth_file ls = Inl IndexError \<or> load_depth_file ls = Inl ValueError"
  proof (cases "load_depth_file ls")
    case (Inl e)
    then show ?thesis
      using load_loop_Inl [OF load_inv_init, of ls e] by (auto simp: load_depth_file_def)
  next
    case (Inr r)
    have "\<forall>l\<in>set ls. well_formed_line l"
      using Inr unfolding load_depth_file_def by (rule load_loop_Inr_wf)
    with bad show ?thesis by blast
  qed
qed

theorem load_depth_file_errors_witness:
  "list_all well_formed_line chr1_depth_lines \<and>
   (\<exists>r. load_depth_file chr1_depth_lines = Inr r) \<and>
   (\<exists>l\<in>set [''chr1 1 20'', ''chr2 x 3'']. \<not> well_formed_line l) \<and>
   load_depth_file [''chr1 1 20'', ''chr2 x 3''] = Inl ValueError \<and>
   (\<exists>l\<in>set [''chr1 1 20'', ''chr2 3'']. \<not> well_formed_line l) \<and>
   load_depth_file [''chr1 1 20'', ''chr2 3''] = Inl IndexError"
proof -
  have a: "\<forall>l\<in>set chr1_depth_lines. well_formed_line l" by code_simp
  have b: "\<exists>l\<in>set [''chr1 1 20'', ''chr2 x 3'']. \<not> well_formed_line l" by code_simp
  have c: "\<exists>l\<in>set [''chr1 1 20'', ''chr2 3'']. \<not> well_formed_line l" by code_simp
  have d: "load_depth_file [''chr1 1 20'', ''chr2 x 3''] \<noteq> Inl IndexError" by code_simp
  have e: "load_depth_file [''chr1 1 20'', ''chr2 3''] \<noteq> Inl ValueError" by code_simp
  from a b c d e
    load_depth_file_errors [of chr1_depth_lines]
    load_depth_file_errors [of "[''chr1 1 20'', ''chr2 x 3'']"]
    load_depth_file_errors [of "[''chr1 1 20'', ''chr2 3'']"]
  show ?thesis by (simp only: list_all_iff) blast
qed

text \<open>
  The claim C3 as it was stated fails on a line with a fourth column: its column count
  is not three, and the file is loaded without an error.
\<close>

theorem extra_column_accepted:
  "length (split (strip ''chr1 1 20 7'')) = 4 \<and>
   load_depth_file [''chr1 1 20 7''] = Inr ([(''chr1'', [(1, 20)])], [(''chr1'', 1)])"
  by code_simp

section \<open>Properties of the reporter\<close>

lemma report_loop_lines:
  "l \<in> set (fst (report_loop depth tp st ilen refs)) \<Longrightarrow>
   \<exists>r row. r \<in> set refs \<and> stats_row depth tp st ilen r = Inr (Some row) \<and>
           l = outstring row @ [CHR 0x0A]"
proof (induction refs)
  case Nil
  then show ?case by simp
next
  case (Cons ref refs)
  show ?case
  proof (cases "stats_row depth tp st ilen ref")
    case (Inl e)
    with Cons.prems show ?thesis by simp
  next
    case (Inr ro)
    show ?thesis
    proof (cases ro)
      case None
      with Inr Cons show ?thesis by auto
    next
      case (Some row)
      with Inr Cons show ?thesis by (auto split: prod.splits)
    qed
  qed
qed

lemma stats_row_Some:
  "stats_row depth tp st ilen ref = Inr (Some row) \<Longrightarrow>
   contains depth ref \<and> contains (coverage st) ref \<and> accession row = ref"
  by (auto simp: stats_row_def contains_def Let_def split: option.splits sum.splits)

lemma stats_row_absent:
  "\<not> contains depth ref \<Longrightarrow> map_of ilen ref \<noteq> Some 0 \<Longrightarrow>
   stats_row depth tp st ilen ref = Inr None"
  by (auto simp: stats_row_def contains_def py_truediv_def split: option.splits sum.splits)

















subsection \<open>Evaluation on the example inputs\<close>

lemma fm_values:
  "fm 20 = ''20.00''" "fm 100 = ''100.00''" "fm 1 = ''1.00''" "fm 0 = ''0''"
  "fm 50 = ''50.00''" "fm (1 / 2) = ''0.50''"
  by (simp_all add: fm_def format_2f_def round_half_even_def Let_def nat_digits.simps digit_char_def)






lemma mixed_process:
  "process_bam_file mixed_bam [(''chr1'', [(1, 20), (2, 20), (3, 20), (4, 20), (5, 20)])] [(''chr1'', 5)] =
     Inr (\<lparr>coverage = [(''chr1'', 5), (''chr2'', 3)], count = [(''chr1'', 5), (''chr2'', 3)],
           sumsq = [(''chr1'', 2000)], ireads = [(''chr1'', 1), (''chr2'', 1)],
           countreads = [(''chr1'', 0), (''chr2'', 0)], total_reads_aligned = 2\<rparr>,
          [(''chr1'', 5), (''chr2'', 8)])"
  by code_simp

lemma mixed_row:
  "stats_row [(''chr1'', [(1, 20), (2, 20), (3, 20), (4, 20), (5, 20)])] [(''chr1'', 5)]
     \<lparr>coverage = [(''chr1'', 5), (''chr2'', 3)], count = [(''chr1'', 5), (''chr2'', 3)],
           sumsq = [(''chr1'', 2000)], ireads = [(''chr1'', 1), (''chr2'', 1)],
           countreads = [(''chr1'', 0), (''chr2'', 0)], total_reads_aligned = 2\<rparr>
     [(''chr1'', 5), (''chr2'', 8)] ''chr1'' =
   Inr (Some \<lparr>accession = ''chr1'', mean_depth = ''20.00'', average_coverage = ''1.00'',
               ref_size = ''5'', total_reads = ''1'', pct_reads_aligned = ''50.00'',
               stdev_field = ''0'', abundance_aligned = ''0.50'',
               x_cov = ''100.00:100.00:0:0:0''\<rparr>)"
  by (simp add: stats_row_def py_truediv_def getitem_def values_of_def xCov_def thresholds_def
        newThresholds_def fm_values str_int_def nat_digits.simps digit_char_def)

lemma mixed_output:
  "output_statistics [(''chr1'', [(1, 20), (2, 20), (3, 20), (4, 20), (5, 20)])] [(''chr1'', 5)]
     \<lparr>coverage = [(''chr1'', 5), (''chr2'', 3)], count = [(''chr1'', 5), (''chr2'', 3)],
           sumsq = [(''chr1'', 2000)], ireads = [(''chr1'', 1), (''chr2'', 1)],
           countreads = [(''chr1'', 0), (''chr2'', 0)], total_reads_aligned = 2\<rparr>
     [(''chr1'', 5), (''chr2'', 8)] =
   ([outstring \<lparr>accession = ''chr1'', mean_depth = ''20.00'', average_coverage = ''1.00'',
               ref_size = ''5'', total_reads = ''1'', pct_reads_aligned = ''50.00'',
               stdev_field = ''0'', abundance_aligned = ''0.50'',
               x_cov = ''100.00:100.00:0:0:0''\<rparr> @ [CHR 0x0A]], None)"
proof -
  have "stats_row [(''chr1'', [(1, 20), (2, 20), (3, 20), (4, 20), (5, 20)])] [(''chr1'', 5)]
     \<lparr>coverage = [(''chr1'', 5), (''chr2'', 3)], count = [(''chr1'', 5), (''chr2'', 3)],
           sumsq = [(''chr1'', 2000)], ireads = [(''chr1'', 1), (''chr2'', 1)],
           countreads = [(''chr1'', 0), (''chr2'', 0)], total_reads_aligned = 2\<rparr>
     [(''chr1'', 5), (''chr2'', 8)] ''chr2'' = Inr None"
    by (simp add: stats_row_def py_truediv_def)
  then show ?thesis
    by (simp add: output_statistics_def keys_def mixed_row)
qed

text \<open>
  The same record given as the half-open interval from 0 to 5 meets only four keys of
  the depth table, the positions 1 to 4: the sum of squares is then 1600 and not 2000.
\<close>

lemma chr1_shifted_process:
  "process_bam_file chr1_bam_shifted [(''chr1'', [(1, 20), (2, 20), (3, 20), (4, 20), (5, 20)])]
       [(''chr1'', 5)] =
     Inr (\<lparr>coverage = [(''chr1'', 5)], count = [(''chr1'', 5)], sumsq = [(''chr1'', 1600)],
           ireads = [(''chr1'', 1)], countreads = [(''chr1'', 0)], total_reads_aligned = 1\<rparr>,
          [(''chr1'', 5)])"
  by code_simp


subsection \<open>The claims about the reporter\<close>

text \<open>
  Claim C1, as the code has it. A reference that is absent from the depth table gets no
  output row, whatever its observed coverage: when its header length is not zero the
  reporter skips it without an error, and every line that the reporter writes is the
  row of another reference, one that is present in the depth table.
\<close>

theorem absent_reference_skipped:
  "\<not> contains depth ref \<Longrightarrow>
   (map_of ilen ref \<noteq> Some 0 \<longrightarrow> stats_row depth total_positions st ilen ref = Inr None) \<and>
   (\<forall>l\<in>set (fst (output_statistics depth total_positions st ilen)).
      \<exists>r row. r \<noteq> ref \<and> contains depth r \<and> accession row = r \<and>
              stats_row depth total_positions st ilen r = Inr (Some row) \<and>
              l = outstring row @ [CHR 0x0A])"
proof (intro conjI impI ballI)
  assume "\<not> contains depth ref" "map_of ilen ref \<noteq> Some 0"
  then show "stats_row depth total_positions st ilen ref = Inr None"
    by (rule stats_row_absent)
next
  fix l
  assume a: "\<not> contains depth ref"
    and l: "l \<in> set (fst (output_statistics depth total_positions st ilen))"
  from l obtain r row where
    r: "stats_row depth total_positions st ilen r = Inr (Some row)" "l = outstring row @ [CHR 0x0A]"
    unfolding output_statistics_def by (blast dest: report_loop_lines)
  from stats_row_Some [OF r(1)] a have "r \<noteq> ref" "contains depth r" "accession row = r" by auto
  with r show "\<exists>r row. r \<noteq> ref \<and> contains depth r \<and> accession row = r \<and>
              stats_row depth total_positions st ilen r = Inr (Some row) \<and>
              l = outstring row @ [CHR 0x0A]" by blast
qed

theorem absent_reference_skipped_witness:
  "stats_row [(''chr1'', [(1, 20), (2, 20), (3, 20), (4, 20), (5, 20)])] [(''chr1'', 5)]
     \<lparr>coverage = [(''chr1'', 5), (''chr2'', 3)], count = [(''chr1'', 5), (''chr2'', 3)],
           sumsq = [(''chr1'', 2000)], ireads = [(''chr1'', 1), (''chr2'', 1)],
           countreads = [(''chr1'', 0), (''chr2'', 0)], total_reads_aligned = 2\<rparr>
     [(''chr1'', 5), (''chr2'', 8)] ''chr2'' = Inr None \<and>
   (\<exists>r row. r \<noteq> ''chr2'' \<and> accession row = r \<and>
      outstring \<lparr>accession = ''chr1'', mean_depth = ''20.00'', average_coverage = ''1.00'',
               ref_size = ''5'', total_reads = ''1'', pct_reads_aligned = ''50.00'',
               stdev_field = ''0'', abundance_aligned = ''0.50'',
               x_cov = ''100.00:100.00:0:0:0''\<rparr> @ [CHR 0x0A] = outstring row @ [CHR 0x0A])"
proof -
  have a: "\<not> contains [(''chr1'', [(1, 20), (2, 20), (3, 20), (4, 20), (5 :: int, 20 :: int)])] ''chr2''"
    by (simp add: contains_def)
  have b: "map_of [(''chr1'', 5), (''chr2'', 8 :: nat)] ''chr2'' \<noteq> Some 0" by simp
  from absent_reference_skipped [OF a, of "[(''chr1'', 5), (''chr2'', 8)]" "[(''chr1'', 5)]"
      "\<lparr>coverage = [(''chr1'', 5), (''chr2'', 3)], count = [(''chr1'', 5), (''chr2'', 3)],
           sumsq = [(''chr1'', 2000)], ireads = [(''chr1'', 1), (''chr2'', 1)],
           countreads = [(''chr1'', 0), (''chr2'', 0)], total_reads_aligned = 2\<rparr>"] b
  show ?thesis unfolding mixed_output by simp blast
qed

text \<open>
  The claim C1 as it was stated fails: \<open>chr1\<close> is in the header, has five covered
  bases and is absent from the depth table, and the report is empty.
\<close>

theorem absent_reference_no_row:
  "\<not> contains ([(''chr2'', [(1, 7)])] :: depth_table) ''chr1'' \<and>
   load_depth_file [''chr2 1 7''] = Inr ([(''chr2'', [(1, 7)])], [(''chr2'', 1)]) \<and>
   process_bam_file (chr1_bam 10) [(''chr2'', [(1, 7)])] [(''chr2'', 1)] =
     Inr (\<lparr>coverage = [(''chr1'', 5)], count = [(''chr1'', 5)], sumsq = [],
           ireads = [(''chr1'', 1)], countreads = [(''chr1'', 0)], total_reads_aligned = 1\<rparr>,
          [(''chr1'', 10)]) \<and>
   main [''chr2 1 7''] (chr1_bam 10) = ([], None)"
proof -
  have a: "\<not> contains ([(''chr2'', [(1, 7)])] :: depth_table) ''chr1''"
    by (simp add: contains_def)
  have b: "load_depth_file [''chr2 1 7''] = Inr ([(''chr2'', [(1, 7)])], [(''chr2'', 1)])"
    by code_simp
  have c: "process_bam_file (chr1_bam 10) [(''chr2'', [(1, 7)])] [(''chr2'', 1)] =
     Inr (\<lparr>coverage = [(''chr1'', 5)], count = [(''chr1'', 5)], sumsq = [],
           ireads = [(''chr1'', 1)], countreads = [(''chr1'', 0)], total_reads_aligned = 1\<rparr>,
          [(''chr1'', 10)])"
    by code_simp
  have d: "main [''chr2 1 7''] (chr1_bam 10) = ([], None)"
    by (simp add: main_def b c output_statistics_def keys_def stats_row_def py_truediv_def)
  from a b c d show ?thesis by simp
qed








end
